theory Spec2Isabelle
  imports Main "HOL-Library.Word"
begin

unbundle bit_operations_syntax

section \<open>Go values: bytes, panics, errors, slices\<close>

text \<open>
  The program is Go. A \<open>byte\<close> is an 8-bit word; \<open>uint16\<close>, \<open>uint32\<close> and \<open>uint64\<close>
  are words of that width. The host is taken to be a 64-bit one: a Go \<open>int\<close> is a 64-bit
  two's complement number, written here as an \<open>int\<close>, and the one conversion that can
  leave that range (\<open>int\<close> of a \<open>uint64\<close>) is written with \<open>sint\<close>.

  A Go function either panics or returns. A panic is the \<open>Inl\<close> of a sum, the returned
  \<open>error\<close> value (\<open>nil\<close> is \<open>None\<close>) is part of the \<open>Inr\<close>.
\<close>

type_synonym byte = "8 word"

datatype ByteOrder = BigEndian | LittleEndian

datatype panic =
    UnsupportedPacketHeadSize   \<comment> \<open>\<open>panic("unsupported packet head size")\<close>\<close>
  | MakesliceLenOutOfRange      \<comment> \<open>runtime error: makeslice: len out of range\<close>
  | MakesliceCapOutOfRange      \<comment> \<open>runtime error: makeslice: cap out of range\<close>
  | SliceBoundsOutOfRange       \<comment> \<open>runtime error: slice bounds out of range\<close>
  | IndexOutOfRange             \<comment> \<open>runtime error: index out of range\<close>

text \<open>
  Modelled from the spec: the sentinel \<open>PacketTooLargeError\<close> is declared outside
  \<open>protocol.go\<close>; it is a single shared error value. The other errors are the ones a
  transport or a message can return.
\<close>

datatype error =
    PacketTooLargeError
  | EOF
  | ErrUnexpectedEOF
  | TransportError string
  | MessageError string

text \<open>
  A slice is a window on a backing array: \<open>elems\<close> are the bytes inside the window
  (\<open>len\<close> of them), \<open>spare\<close> are the bytes of the array behind the window, up to the
  capacity. Allocation of a non-negative number of bytes always succeeds (memory limits
  are not modelled).
\<close>

record slice =
  elems :: "byte list"
  spare :: "byte list"

definition slice_len :: "slice \<Rightarrow> int" where
  "slice_len s = int (length (elems s))"

definition slice_cap :: "slice \<Rightarrow> int" where
  "slice_cap s = int (length (elems s) + length (spare s))"

definition nil_slice :: slice where
  "nil_slice = \<lparr>elems = [], spare = []\<rparr>"

text \<open>\<open>make([]byte, l, c)\<close>\<close>

definition make_bytes :: "int \<Rightarrow> int \<Rightarrow> panic + slice" where
  "make_bytes l c =
     (if l < 0 then Inl MakesliceLenOutOfRange
      else if c < l then Inl MakesliceCapOutOfRange
      else Inr \<lparr>elems = replicate (nat l) 0, spare = replicate (nat (c - l)) 0\<rparr>)"

text \<open>\<open>s[:k]\<close>, which is \<open>s[0:k]\<close>: the bound is checked against the capacity.\<close>

definition reslice :: "slice \<Rightarrow> int \<Rightarrow> panic + slice" where
  "reslice s k =
     (if k < 0 \<or> slice_cap s < k then Inl SliceBoundsOutOfRange
      else Inr \<lparr>elems = take (nat k) (elems s @ spare s),
                spare = drop (nat k) (elems s @ spare s)\<rparr>)"

text \<open>
  \<open>append(s, bs...)\<close>: in place when the capacity suffices, otherwise into a new array
  (whose capacity is taken to be exactly the new length).
\<close>

definition append_slice :: "slice \<Rightarrow> byte list \<Rightarrow> slice" where
  "append_slice s bs =
     \<lparr>elems = elems s @ bs, spare = drop (length bs) (spare s)\<rparr>"

section \<open>encoding/binary\<close>

text \<open>
  The six functions of \<open>binary.ByteOrder\<close> that \<open>PacketN\<close> uses. Each starts with a
  bounds check on the last byte it touches.
\<close>

definition PutUint16 :: "ByteOrder \<Rightarrow> byte list \<Rightarrow> 16 word \<Rightarrow> panic + byte list" where
  "PutUint16 byteOrder b v =
     (if length b < 2 then Inl IndexOutOfRange
      else Inr (case byteOrder of
          LittleEndian \<Rightarrow> b[0 := ucast v, 1 := ucast (drop_bit 8 v)]
        | BigEndian \<Rightarrow> b[0 := ucast (drop_bit 8 v), 1 := ucast v]))"

definition Uint16 :: "ByteOrder \<Rightarrow> byte list \<Rightarrow> panic + 16 word" where
  "Uint16 byteOrder b =
     (if length b < 2 then Inl IndexOutOfRange
      else Inr (case byteOrder of
          LittleEndian \<Rightarrow> ucast (b ! 0) OR push_bit 8 (ucast (b ! 1))
        | BigEndian \<Rightarrow> ucast (b ! 1) OR push_bit 8 (ucast (b ! 0))))"

definition PutUint32 :: "ByteOrder \<Rightarrow> byte list \<Rightarrow> 32 word \<Rightarrow> panic + byte list" where
  "PutUint32 byteOrder b v =
     (if length b < 4 then Inl IndexOutOfRange
      else Inr (case byteOrder of
          LittleEndian \<Rightarrow>
            b[0 := ucast v, 1 := ucast (drop_bit 8 v),
              2 := ucast (drop_bit 16 v), 3 := ucast (drop_bit 24 v)]
        | BigEndian \<Rightarrow>
            b[0 := ucast (drop_bit 24 v), 1 := ucast (drop_bit 16 v),
              2 := ucast (drop_bit 8 v), 3 := ucast v]))"

definition Uint32 :: "ByteOrder \<Rightarrow> byte list \<Rightarrow> panic + 32 word" where
  "Uint32 byteOrder b =
     (if length b < 4 then Inl IndexOutOfRange
      else Inr (case byteOrder of
          LittleEndian \<Rightarrow>
            ucast (b ! 0) OR push_bit 8 (ucast (b ! 1)) OR
            push_bit 16 (ucast (b ! 2)) OR push_bit 24 (ucast (b ! 3))
        | BigEndian \<Rightarrow>
            ucast (b ! 3) OR push_bit 8 (ucast (b ! 2)) OR
            push_bit 16 (ucast (b ! 1)) OR push_bit 24 (ucast (b ! 0))))"

definition PutUint64 :: "ByteOrder \<Rightarrow> byte list \<Rightarrow> 64 word \<Rightarrow> panic + byte list" where
  "PutUint64 byteOrder b v =
     (if length b < 8 then Inl IndexOutOfRange
      else Inr (case byteOrder of
          LittleEndian \<Rightarrow>
            b[0 := ucast v, 1 := ucast (drop_bit 8 v),
              2 := ucast (drop_bit 16 v), 3 := ucast (drop_bit 24 v),
              4 := ucast (drop_bit 32 v), 5 := ucast (drop_bit 40 v),
              6 := ucast (drop_bit 48 v), 7 := ucast (drop_bit 56 v)]
        | BigEndian \<Rightarrow>
            b[0 := ucast (drop_bit 56 v), 1 := ucast (drop_bit 48 v),
              2 := ucast (drop_bit 40 v), 3 := ucast (drop_bit 32 v),
              4 := ucast (drop_bit 24 v), 5 := ucast (drop_bit 16 v),
              6 := ucast (drop_bit 8 v), 7 := ucast v]))"

definition Uint64 :: "ByteOrder \<Rightarrow> byte list \<Rightarrow> panic + 64 word" where
  "Uint64 byteOrder b =
     (if length b < 8 then Inl IndexOutOfRange
      else Inr (case byteOrder of
          LittleEndian \<Rightarrow>
            ucast (b ! 0) OR push_bit 8 (ucast (b ! 1)) OR
            push_bit 16 (ucast (b ! 2)) OR push_bit 24 (ucast (b ! 3)) OR
            push_bit 32 (ucast (b ! 4)) OR push_bit 40 (ucast (b ! 5)) OR
            push_bit 48 (ucast (b ! 6)) OR push_bit 56 (ucast (b ! 7))
        | BigEndian \<Rightarrow>
            ucast (b ! 7) OR push_bit 8 (ucast (b ! 6)) OR
            push_bit 16 (ucast (b ! 5)) OR push_bit 24 (ucast (b ! 4)) OR
            push_bit 32 (ucast (b ! 3)) OR push_bit 40 (ucast (b ! 2)) OR
            push_bit 48 (ucast (b ! 1)) OR push_bit 56 (ucast (b ! 0))))"

section \<open>Buffer, Message, writer\<close>

text \<open>
  Modelled from the spec: the type \<open>Buffer\<close> is declared outside \<open>protocol.go\<close>, which
  uses its field \<open>Data\<close> only: a growable byte region with a logical length and a
  capacity.
\<close>

record Buffer =
  Data :: slice

text \<open>
  Modelled from the spec: the interface \<open>Message\<close> is declared outside \<open>protocol.go\<close>:
  a recommended buffer size and a function that writes the message into a buffer and may
  return an error.
\<close>

record Message =
  RecommendBufferSize :: int
  WriteBuffer :: "Buffer \<Rightarrow> Buffer \<times> error option"

text \<open>
  Modelled from the spec: a message that appends the bytes \<open>P\<close> behind the reserved
  header and announces the size \<open>hint\<close>.
\<close>

definition appendMessage :: "int \<Rightarrow> byte list \<Rightarrow> Message" where
  "appendMessage hint P =
     \<lparr>RecommendBufferSize = hint,
      WriteBuffer = (\<lambda>buffer. (buffer\<lparr>Data := append_slice (Data buffer) P\<rparr>, None))\<rparr>"

text \<open>
  An \<open>io.Writer\<close>: the bytes it has received so far, and the error it answers every
  \<open>Write\<close> with, if any (a failing writer receives nothing).
\<close>

record writer =
  sink :: "byte list"
  werr :: "error option"

definition writer_Write :: "writer \<Rightarrow> byte list \<Rightarrow> writer \<times> error option" where
  "writer_Write w bs =
     (case werr w of
        None \<Rightarrow> (w\<lparr>sink := sink w @ bs\<rparr>, None)
      | Some e \<Rightarrow> (w, Some e))"

section \<open>SimpleProtocol\<close>

text \<open>
  The struct \<open>SimpleProtocol\<close>. Its fields \<open>n\<close>, \<open>bo\<close> and \<open>head\<close> are \<open>sp_n\<close>,
  \<open>sp_bo\<close> and \<open>sp_head\<close> here. The closure \<open>decodeHead\<close> reads \<open>protocol.head\<close>
  through the pointer it captured, so the model passes it the current head.
\<close>

record SimpleProtocol =
  sp_n :: int
  sp_bo :: ByteOrder
  sp_head :: "byte list"
  encodeHead :: "byte list \<Rightarrow> panic + byte list"
  decodeHead :: "byte list \<Rightarrow> panic + int"
  MaxPacketSize :: int

text \<open>The closures of the four cases of the \<open>switch\<close> in \<open>PacketN\<close>.\<close>

definition encodeHead1 :: "byte list \<Rightarrow> panic + byte list" where
  "encodeHead1 buffer =
     (if length buffer < 1 then Inl IndexOutOfRange
      else Inr (buffer[0 := word_of_int (int (length buffer) - 1)]))"

definition decodeHead1 :: "byte list \<Rightarrow> panic + int" where
  "decodeHead1 h = (if length h < 1 then Inl IndexOutOfRange else Inr (uint (h ! 0)))"

definition encodeHead2 :: "ByteOrder \<Rightarrow> byte list \<Rightarrow> panic + byte list" where
  "encodeHead2 byteOrder buffer =
     PutUint16 byteOrder buffer (word_of_int (int (length buffer) - 2))"

definition decodeHead2 :: "ByteOrder \<Rightarrow> byte list \<Rightarrow> panic + int" where
  "decodeHead2 byteOrder h =
     (case Uint16 byteOrder h of Inl f \<Rightarrow> Inl f | Inr v \<Rightarrow> Inr (uint v))"

definition encodeHead4 :: "ByteOrder \<Rightarrow> byte list \<Rightarrow> panic + byte list" where
  "encodeHead4 byteOrder buffer =
     PutUint32 byteOrder buffer (word_of_int (int (length buffer) - 4))"

definition decodeHead4 :: "ByteOrder \<Rightarrow> byte list \<Rightarrow> panic + int" where
  "decodeHead4 byteOrder h =
     (case Uint32 byteOrder h of Inl f \<Rightarrow> Inl f | Inr v \<Rightarrow> Inr (uint v))"

definition encodeHead8 :: "ByteOrder \<Rightarrow> byte list \<Rightarrow> panic + byte list" where
  "encodeHead8 byteOrder buffer =
     PutUint64 byteOrder buffer (word_of_int (int (length buffer) - 8))"

text \<open>\<open>int\<close> of a \<open>uint64\<close> keeps the 64 bits: the value is read as two's complement.\<close>

definition decodeHead8 :: "ByteOrder \<Rightarrow> byte list \<Rightarrow> panic + int" where
  "decodeHead8 byteOrder h =
     (case Uint64 byteOrder h of Inl f \<Rightarrow> Inl f | Inr v \<Rightarrow> Inr (sint v))"

text \<open>
  \<open>PacketN\<close>: the struct literal allocates \<open>head\<close> with \<open>make([]byte, n)\<close> before the
  \<open>switch\<close> runs; \<open>MaxPacketSize\<close> keeps its zero value.
\<close>

definition PacketN :: "int \<Rightarrow> ByteOrder \<Rightarrow> panic + SimpleProtocol" where
  "PacketN n byteOrder =
     (case make_bytes n n of
        Inl f \<Rightarrow> Inl f
      | Inr h \<Rightarrow>
          (if n = 1 then
             Inr \<lparr>sp_n = n, sp_bo = byteOrder, sp_head = elems h,
                  encodeHead = encodeHead1, decodeHead = decodeHead1, MaxPacketSize = 0\<rparr>
           else if n = 2 then
             Inr \<lparr>sp_n = n, sp_bo = byteOrder, sp_head = elems h,
                  encodeHead = encodeHead2 byteOrder, decodeHead = decodeHead2 byteOrder,
                  MaxPacketSize = 0\<rparr>
           else if n = 4 then
             Inr \<lparr>sp_n = n, sp_bo = byteOrder, sp_head = elems h,
                  encodeHead = encodeHead4 byteOrder, decodeHead = decodeHead4 byteOrder,
                  MaxPacketSize = 0\<rparr>
           else if n = 8 then
             Inr \<lparr>sp_n = n, sp_bo = byteOrder, sp_head = elems h,
                  encodeHead = encodeHead8 byteOrder, decodeHead = decodeHead8 byteOrder,
                  MaxPacketSize = 0\<rparr>
           else Inl UnsupportedPacketHeadSize))"

text \<open>\<open>Packet\<close>: size the buffer, then let the message write itself.\<close>

definition Packet :: "SimpleProtocol \<Rightarrow> Buffer \<Rightarrow> Message \<Rightarrow> panic + Buffer \<times> error option" where
  "Packet p buffer message =
     (let size' = RecommendBufferSize message in
      case (if slice_cap (Data buffer) < size' then make_bytes (sp_n p) size'
            else reslice (Data buffer) (sp_n p)) of
        Inl f \<Rightarrow> Inl f
      | Inr d \<Rightarrow> Inr (WriteBuffer message (buffer\<lparr>Data := d\<rparr>)))"

text \<open>
  \<open>Write\<close>: the guard compares \<open>len(buffer.Data)\<close>, header included, with
  \<open>MaxPacketSize\<close>; then the header is stamped in place and the whole buffer goes to
  the writer in one call.
\<close>

definition Write :: "SimpleProtocol \<Rightarrow> writer \<Rightarrow> Buffer \<Rightarrow> panic + writer \<times> Buffer \<times> error option" where
  "Write p w buffer =
     (if MaxPacketSize p > 0 \<and> slice_len (Data buffer) > MaxPacketSize p
      then Inr (w, buffer, Some PacketTooLargeError)
      else case encodeHead p (elems (Data buffer)) of
        Inl f \<Rightarrow> Inl f
      | Inr d \<Rightarrow>
          (let buffer' = buffer\<lparr>Data := (Data buffer)\<lparr>elems := d\<rparr>\<rparr>;
               (w', err) = writer_Write w d
           in Inr (w', buffer', err)))"

section \<open>The reader and io.ReadFull\<close>

text \<open>
  An \<open>io.Reader\<close> is what its successive \<open>Read\<close> calls will answer: a chunk of bytes
  (of which a call takes at most as many as its buffer holds, leaving the rest for the
  next call; an empty chunk is a call that returns no byte and no error) or an error of the
  transport. When the events are used up the reader is at the end of its input and
  answers \<open>EOF\<close>. The reader counts the calls it has received.
\<close>

datatype event = Chunk "byte list" | Failure error

record reader =
  events :: "event list"
  calls :: nat

definition reader_Read :: "reader \<Rightarrow> nat \<Rightarrow> byte list \<times> error option \<times> reader" where
  "reader_Read r k =
     (case events r of
        [] \<Rightarrow> ([], Some EOF, r\<lparr>calls := Suc (calls r)\<rparr>)
      | Failure e # rest \<Rightarrow> ([], Some e, \<lparr>events = rest, calls = Suc (calls r)\<rparr>)
      | Chunk c # rest \<Rightarrow>
          (if length c \<le> k then (c, None, \<lparr>events = rest, calls = Suc (calls r)\<rparr>)
           else (take k c, None, \<lparr>events = Chunk (drop k c) # rest, calls = Suc (calls r)\<rparr>)))"

text \<open>
  The loop of \<open>io.ReadAtLeast\<close> with \<open>min = len(buf)\<close>, which is \<open>io.ReadFull\<close>:
  \<open>for n < min && err == nil { nn, err = r.Read(buf[n:]); n += nn }\<close>.
  The bytes of each call land in \<open>buf\<close> from offset \<open>n\<close> on.
\<close>

function ReadFull_loop ::
  "reader \<Rightarrow> byte list \<Rightarrow> nat \<Rightarrow> error option \<Rightarrow> byte list \<times> nat \<times> error option \<times> reader" where
  "ReadFull_loop r buf n err =
     (if n < length buf \<and> err = None then
        (case reader_Read r (length buf - n) of
           (bs, err', r') \<Rightarrow>
             ReadFull_loop r' (take n buf @ bs @ drop (n + length bs) buf) (n + length bs) err')
      else (buf, n, err, r))"
  by pat_completeness auto
termination
  apply (relation "measure (\<lambda>(r, buf, n, err).
         2 * length (events r) + (length buf - n) + (if err = None then 1 else 0))")
   apply simp
  apply (auto simp: reader_Read_def split: list.splits event.splits if_splits)
  done

declare ReadFull_loop.simps [simp del]

definition ReadFull :: "reader \<Rightarrow> byte list \<Rightarrow> byte list \<times> nat \<times> error option \<times> reader" where
  "ReadFull r buf =
     (case ReadFull_loop r buf 0 None of
        (buf', n, err, r') \<Rightarrow>
          (if n \<ge> length buf then (buf', n, None, r')
           else if n > 0 \<and> err = Some EOF then (buf', n, Some ErrUnexpectedEOF, r')
           else (buf', n, err, r')))"

section \<open>Read\<close>

text \<open>
  \<open>Read\<close>: the header is read into the scratch region \<open>p.head\<close>, decoded, checked
  against \<open>MaxPacketSize\<close>; the buffer is reallocated or resliced to the decoded size;
  a size of zero returns at once; otherwise the payload is read into the buffer.
  The result holds the protocol (its \<open>head\<close> has changed), the reader, the buffer and
  the returned error.
\<close>

definition Read ::
  "SimpleProtocol \<Rightarrow> reader \<Rightarrow> Buffer \<Rightarrow> panic + SimpleProtocol \<times> reader \<times> Buffer \<times> error option" where
  "Read p rd buffer =
     (case ReadFull rd (sp_head p) of
        (h, _, Some err, r1) \<Rightarrow> Inr (p\<lparr>sp_head := h\<rparr>, r1, buffer, Some err)
      | (h, _, None, r1) \<Rightarrow>
          (let p1 = p\<lparr>sp_head := h\<rparr> in
           case decodeHead p1 (sp_head p1) of
             Inl f \<Rightarrow> Inl f
           | Inr size' \<Rightarrow>
               (if MaxPacketSize p1 > 0 \<and> size' > MaxPacketSize p1
                then Inr (p1, r1, buffer, Some PacketTooLargeError)
                else
                  (case (if slice_cap (Data buffer) < size' then make_bytes size' size'
                         else reslice (Data buffer) size') of
                     Inl f \<Rightarrow> Inl f
                   | Inr d \<Rightarrow>
                       (if size' = 0 then Inr (p1, r1, buffer\<lparr>Data := d\<rparr>, None)
                        else
                          (case ReadFull r1 (elems d) of
                             (bs, _, err, r2) \<Rightarrow>
                               Inr (p1, r2, buffer\<lparr>Data := d\<lparr>elems := bs\<rparr>\<rparr>, err)))))))"

section \<open>Notions used in the statements\<close>

text \<open>
  The bytes a reader will deliver before it fails or ends: the chunks up to the first
  failure, joined.
\<close>

fun avail :: "event list \<Rightarrow> byte list" where
  "avail [] = []"
| "avail (Failure e # rest) = []"
| "avail (Chunk c # rest) = c @ avail rest"

text \<open>
  The wire format: a header is an unsigned integer in the chosen byte order, the most
  significant byte first (big-endian) or last (little-endian).
\<close>

definition be_value :: "byte list \<Rightarrow> int" where
  "be_value bs = foldl (\<lambda>a b. a * 256 + uint b) 0 bs"

definition wire_value :: "ByteOrder \<Rightarrow> byte list \<Rightarrow> int" where
  "wire_value byteOrder bs =
     (case byteOrder of BigEndian \<Rightarrow> be_value bs | LittleEndian \<Rightarrow> be_value (rev bs))"

text \<open>
  The header bytes that \<open>PutUint16\<close>, \<open>PutUint32\<close> and \<open>PutUint64\<close> store for a
  value, and the header of \<open>n\<close> bytes that \<open>encodeHead\<close> stores for a length.
\<close>

definition head16 :: "ByteOrder \<Rightarrow> 16 word \<Rightarrow> byte list" where
  "head16 byteOrder v =
     (case byteOrder of
        LittleEndian \<Rightarrow> [ucast v, ucast (drop_bit 8 v)]
      | BigEndian \<Rightarrow> [ucast (drop_bit 8 v), ucast v])"

definition head32 :: "ByteOrder \<Rightarrow> 32 word \<Rightarrow> byte list" where
  "head32 byteOrder v =
     (case byteOrder of
        LittleEndian \<Rightarrow> [ucast v, ucast (drop_bit 8 v), ucast (drop_bit 16 v), ucast (drop_bit 24 v)]
      | BigEndian \<Rightarrow> [ucast (drop_bit 24 v), ucast (drop_bit 16 v), ucast (drop_bit 8 v), ucast v])"

definition head64 :: "ByteOrder \<Rightarrow> 64 word \<Rightarrow> byte list" where
  "head64 byteOrder v =
     (case byteOrder of
        LittleEndian \<Rightarrow>
          [ucast v, ucast (drop_bit 8 v), ucast (drop_bit 16 v), ucast (drop_bit 24 v),
           ucast (drop_bit 32 v), ucast (drop_bit 40 v), ucast (drop_bit 48 v),
           ucast (drop_bit 56 v)]
      | BigEndian \<Rightarrow>
          [ucast (drop_bit 56 v), ucast (drop_bit 48 v), ucast (drop_bit 40 v),
           ucast (drop_bit 32 v), ucast (drop_bit 24 v), ucast (drop_bit 16 v),
           ucast (drop_bit 8 v), ucast v])"

definition header :: "int \<Rightarrow> ByteOrder \<Rightarrow> int \<Rightarrow> byte list" where
  "header n byteOrder x =
     (if n = 1 then [word_of_int x]
      else if n = 2 then head16 byteOrder (word_of_int x)
      else if n = 4 then head32 byteOrder (word_of_int x)
      else head64 byteOrder (word_of_int x))"

text \<open>The \<open>k\<close> low bytes of an integer, the least significant first.\<close>

fun le_bytes :: "nat \<Rightarrow> int \<Rightarrow> byte list" where
  "le_bytes 0 x = []"
| "le_bytes (Suc k) x = word_of_int x # le_bytes k (drop_bit 8 x)"

section \<open>io.ReadFull delivers the next bytes of the reader\<close>

lemma ReadFull_loop_stop:
  "\<not> (n < length buf \<and> err = None) \<Longrightarrow> ReadFull_loop r buf n err = (buf, n, err, r)"
  by (subst ReadFull_loop.simps) auto

lemma ReadFull_loop_step:
  "n < length buf \<Longrightarrow> reader_Read r (length buf - n) = (bs, err', r') \<Longrightarrow>
   ReadFull_loop r buf n None =
     ReadFull_loop r' (take n buf @ bs @ drop (n + length bs) buf) (n + length bs) err'"
  by (subst ReadFull_loop.simps) simp

lemma ReadFull_loop_enough:
  "events r = evs \<Longrightarrow> n \<le> length buf \<Longrightarrow> length buf - n \<le> length (avail evs) \<Longrightarrow>
   \<exists>r'. ReadFull_loop r buf n None =
          (take n buf @ take (length buf - n) (avail evs), length buf, None, r') \<and>
        avail (events r') = drop (length buf - n) (avail evs)"
proof (induction evs arbitrary: r buf n)
  case Nil
  then have "n = length buf" by simp
  with Nil show ?case by (simp add: ReadFull_loop_stop)
next
  case (Cons ev rest)
  show ?case
  proof (cases "n = length buf")
    case True
    with Cons.prems show ?thesis by (simp add: ReadFull_loop_stop)
  next
    case False
    with Cons.prems have lt: "n < length buf" by simp
    show ?thesis
    proof (cases ev)
      case (Failure e)
      with Cons.prems lt show ?thesis by simp
    next
      case (Chunk c)
      show ?thesis
      proof (cases "length c \<le> length buf - n")
        case True
        let ?r' = "\<lparr>events = rest, calls = Suc (calls r)\<rparr>"
        let ?buf' = "take n buf @ c @ drop (n + length c) buf"
        have rd: "reader_Read r (length buf - n) = (c, None, ?r')"
          using Cons.prems(1) Chunk True by (simp add: reader_Read_def)
        have len: "length ?buf' = length buf" using True lt by simp
        have step: "ReadFull_loop r buf n None = ReadFull_loop ?r' ?buf' (n + length c) None"
          by (rule ReadFull_loop_step [OF lt rd])
        have "\<exists>r'. ReadFull_loop ?r' ?buf' (n + length c) None =
          (take (n + length c) ?buf' @ take (length ?buf' - (n + length c)) (avail rest), length ?buf', None, r') \<and>
          avail (events r') = drop (length ?buf' - (n + length c)) (avail rest)"
          using Cons.prems True lt Chunk by (intro Cons.IH) simp_all
        then obtain r' where r': "ReadFull_loop ?r' ?buf' (n + length c) None =
          (take (n + length c) ?buf' @ take (length ?buf' - (n + length c)) (avail rest), length ?buf', None, r')"
          "avail (events r') = drop (length ?buf' - (n + length c)) (avail rest)" by blast
        have t: "take (n + length c) ?buf' = take n buf @ c" using lt True by simp
        show ?thesis
          using step r' len t True lt Chunk by simp
      next
        case False
        let ?k = "length buf - n"
        let ?r' = "\<lparr>events = Chunk (drop ?k c) # rest, calls = Suc (calls r)\<rparr>"
        let ?buf' = "take n buf @ take ?k c @ drop (n + length (take ?k c)) buf"
        have rd: "reader_Read r ?k = (take ?k c, None, ?r')"
          using Cons.prems(1) Chunk False by (simp add: reader_Read_def)
        have step: "ReadFull_loop r buf n None = ReadFull_loop ?r' ?buf' (n + length (take ?k c)) None"
          by (rule ReadFull_loop_step [OF lt rd])
        have l: "length (take ?k c) = ?k" using False by simp
        have "ReadFull_loop ?r' ?buf' (n + length (take ?k c)) None = (?buf', n + length (take ?k c), None, ?r')"
          using lt l by (intro ReadFull_loop_stop) simp
        with step show ?thesis using lt l False Chunk by simp
      qed
    qed
  qed
qed

lemma ReadFull_loop_short:
  "events r = evs \<Longrightarrow> n \<le> length buf \<Longrightarrow> length (avail evs) < length buf - n \<Longrightarrow>
   \<exists>buf' e r'. ReadFull_loop r buf n None = (buf', n + length (avail evs), Some e, r')"
proof (induction evs arbitrary: r buf n)
  case Nil
  then have lt: "n < length buf" by simp
  have rd: "reader_Read r (length buf - n) = ([], Some EOF, r\<lparr>calls := Suc (calls r)\<rparr>)"
    using Nil.prems(1) by (simp add: reader_Read_def)
  show ?case
    by (simp add: ReadFull_loop_step [OF lt rd] ReadFull_loop_stop)
next
  case (Cons ev rest)
  then have lt: "n < length buf" by simp
  show ?case
  proof (cases ev)
    case (Failure e)
    have rd: "reader_Read r (length buf - n) = ([], Some e, \<lparr>events = rest, calls = Suc (calls r)\<rparr>)"
      using Cons.prems(1) Failure by (simp add: reader_Read_def)
    show ?thesis
      using Failure by (simp add: ReadFull_loop_step [OF lt rd] ReadFull_loop_stop)
  next
    case (Chunk c)
    let ?r' = "\<lparr>events = rest, calls = Suc (calls r)\<rparr>"
    let ?buf' = "take n buf @ c @ drop (n + length c) buf"
    from Cons.prems Chunk have le: "length c \<le> length buf - n" by simp
    have rd: "reader_Read r (length buf - n) = (c, None, ?r')"
      using Cons.prems(1) Chunk le by (simp add: reader_Read_def)
    have len: "length ?buf' = length buf" using le lt by simp
    have "\<exists>buf' e r'. ReadFull_loop ?r' ?buf' (n + length c) None =
            (buf', n + length c + length (avail rest), Some e, r')"
      using Cons.prems le lt Chunk len by (intro Cons.IH) simp_all
    then show ?thesis
      using Chunk by (simp add: ReadFull_loop_step [OF lt rd] add.assoc)
  qed
qed

lemma ReadFull_enough:
  assumes "length buf \<le> length (avail (events r))"
  shows "\<exists>r'. ReadFull r buf = (take (length buf) (avail (events r)), length buf, None, r') \<and>
              avail (events r') = drop (length buf) (avail (events r))"
proof -
  from ReadFull_loop_enough [OF refl, of 0 buf r] assms
  obtain r' where "ReadFull_loop r buf 0 None =
      (take (length buf) (avail (events r)), length buf, None, r')"
    and "avail (events r') = drop (length buf) (avail (events r))"
    by auto
  then show ?thesis by (simp add: ReadFull_def)
qed

lemma ReadFull_short:
  assumes "length (avail (events r)) < length buf"
  shows "\<exists>buf' k e r'. ReadFull r buf = (buf', k, Some e, r')"
proof -
  from ReadFull_loop_short [OF refl, of 0 buf r] assms
  obtain buf' e r' where "ReadFull_loop r buf 0 None = (buf', length (avail (events r)), Some e, r')"
    by auto
  with assms show ?thesis by (simp add: ReadFull_def)
qed

lemma ReadFull_None:
  assumes "ReadFull r buf = (buf', k, None, r')"
  shows "length buf \<le> length (avail (events r)) \<and> buf' = take (length buf) (avail (events r)) \<and>
         k = length buf \<and> avail (events r') = drop (length buf) (avail (events r))"
proof (cases "length buf \<le> length (avail (events r))")
  case True
  from ReadFull_enough [OF True] assms True show ?thesis by auto
next
  case False
  then have "length (avail (events r)) < length buf" by simp
  from ReadFull_short [OF this] assms show ?thesis by auto
qed

section \<open>Headers: encoding, decoding and their value on the wire\<close>

lemma upd2: "2 \<le> length b \<Longrightarrow> b[0 := x0, 1 := x1] = x0 # x1 # drop 2 b"
  by (auto simp: numeral_eq_Suc Suc_le_length_iff)

lemma upd4:
  "4 \<le> length b \<Longrightarrow> b[0 := x0, 1 := x1, 2 := x2, 3 := x3] = x0 # x1 # x2 # x3 # drop 4 b"
  by (auto simp: numeral_eq_Suc Suc_le_length_iff)

lemma upd8:
  "8 \<le> length b \<Longrightarrow>
   b[0 := x0, 1 := x1, 2 := x2, 3 := x3, 4 := x4, 5 := x5, 6 := x6, 7 := x7] =
   x0 # x1 # x2 # x3 # x4 # x5 # x6 # x7 # drop 8 b"
  by (auto simp: numeral_eq_Suc Suc_le_length_iff)

lemma PutUint16_eq: "2 \<le> length b \<Longrightarrow> PutUint16 bo b v = Inr (head16 bo v @ drop 2 b)"
  by (cases bo) (simp_all add: PutUint16_def head16_def upd2 del: One_nat_def)

lemma PutUint32_eq: "4 \<le> length b \<Longrightarrow> PutUint32 bo b v = Inr (head32 bo v @ drop 4 b)"
  by (cases bo) (simp_all add: PutUint32_def head32_def upd4 del: One_nat_def)

lemma PutUint64_eq: "8 \<le> length b \<Longrightarrow> PutUint64 bo b v = Inr (head64 bo v @ drop 8 b)"
  by (cases bo) (simp_all add: PutUint64_def head64_def upd8 del: One_nat_def)

lemma byte_ranges:
  assumes "n < 64"
  obtains "n < 8" | "8 \<le> n" "n < 16" | "16 \<le> n" "n < 24" | "24 \<le> n" "n < 32"
    | "32 \<le> n" "n < 40" | "40 \<le> n" "n < 48" | "48 \<le> n" "n < 56" | "56 \<le> n" "n < (64::nat)"
  using assms by linarith

lemma join16:
  "ucast (ucast v :: byte) OR push_bit 8 (ucast (ucast (drop_bit 8 v) :: byte)) = (v :: 16 word)"
  (is "?l = v")
proof (rule bit_word_eqI)
  fix n :: nat
  assume "n < LENGTH(16)"
  then have n: "n < 16" "n < 64" by simp_all
  from n(2) show "bit ?l n = bit v n"
    using n(1) by (cases n rule: byte_ranges) (simp_all add: bit_simps less_diff_conv2)
qed

lemma join32:
  "ucast (ucast v :: byte) OR push_bit 8 (ucast (ucast (drop_bit 8 v) :: byte)) OR
   push_bit 16 (ucast (ucast (drop_bit 16 v) :: byte)) OR
   push_bit 24 (ucast (ucast (drop_bit 24 v) :: byte)) = (v :: 32 word)"
  (is "?l = v")
proof (rule bit_word_eqI)
  fix n :: nat
  assume "n < LENGTH(32)"
  then have n: "n < 32" "n < 64" by simp_all
  from n(2) show "bit ?l n = bit v n"
    using n(1) by (cases n rule: byte_ranges) (simp_all add: bit_simps less_diff_conv2)
qed

lemma join64:
  "ucast (ucast v :: byte) OR push_bit 8 (ucast (ucast (drop_bit 8 v) :: byte)) OR
   push_bit 16 (ucast (ucast (drop_bit 16 v) :: byte)) OR
   push_bit 24 (ucast (ucast (drop_bit 24 v) :: byte)) OR
   push_bit 32 (ucast (ucast (drop_bit 32 v) :: byte)) OR
   push_bit 40 (ucast (ucast (drop_bit 40 v) :: byte)) OR
   push_bit 48 (ucast (ucast (drop_bit 48 v) :: byte)) OR
   push_bit 56 (ucast (ucast (drop_bit 56 v) :: byte)) = (v :: 64 word)"
  (is "?l = v")
proof (rule bit_word_eqI)
  fix n :: nat
  assume "n < LENGTH(64)"
  then have "n < 64" by simp
  then show "bit ?l n = bit v n"
    by (cases n rule: byte_ranges) (simp_all add: bit_simps less_diff_conv2)
qed

lemma Uint16_head16: "Uint16 bo (head16 bo v @ rest) = Inr v"
  by (cases bo) (simp_all add: Uint16_def head16_def join16)

lemma Uint32_head32: "Uint32 bo (head32 bo v @ rest) = Inr v"
  by (cases bo) (simp_all add: Uint32_def head32_def join32)

lemma Uint64_head64: "Uint64 bo (head64 bo v @ rest) = Inr v"
  by (cases bo) (simp_all add: Uint64_def head64_def join64)

lemma be_value_snoc: "be_value (bs @ [b]) = be_value bs * 256 + uint b"
  by (simp add: be_value_def)

lemma be_value_le_bytes: "0 \<le> x \<Longrightarrow> be_value (rev (le_bytes k x)) = x mod 256 ^ k"
proof (induction k arbitrary: x)
  case 0
  show ?case by (simp add: be_value_def)
next
  case (Suc k)
  have d: "drop_bit 8 x = x div 256" by (simp add: drop_bit_eq_div)
  have "0 \<le> x div 256" using Suc.prems by simp
  then have ih: "be_value (rev (le_bytes k (x div 256))) = (x div 256) mod 256 ^ k"
    by (rule Suc.IH)
  have "x mod (256 * 256 ^ k) = 256 * (x div 256 mod 256 ^ k) + x mod 256"
    by (rule zmod_zmult2_eq) simp
  then show ?case
    by (simp add: be_value_snoc ih uint_word_of_int d)
qed

lemma uint_drop_bit: "uint (drop_bit k v) = drop_bit k (uint v)"
  by (simp add: unsigned_drop_bit_eq bintr_uint)

lemma ucast_drop_bit_byte:
  "(ucast (drop_bit k v) :: byte) = word_of_int (drop_bit k (uint v))"
  by (simp only: ucast_eq uint_drop_bit)

lemma ucast_byte: "(ucast v :: byte) = word_of_int (uint v)"
  by (rule ucast_eq)

lemma le_bytes_2: "le_bytes 2 x = [word_of_int x, word_of_int (drop_bit 8 x)]"
proof -
  have "le_bytes 2 x = le_bytes (Suc (Suc 0)) x"
    by (rule arg_cong [where f = "\<lambda>k. le_bytes k x"]) simp
  then show ?thesis by simp
qed

lemma le_bytes_4:
  "le_bytes 4 x = [word_of_int x, word_of_int (drop_bit 8 x), word_of_int (drop_bit 16 x),
     word_of_int (drop_bit 24 x)]"
proof -
  have "le_bytes 4 x = le_bytes (Suc (Suc (Suc (Suc 0)))) x"
    by (rule arg_cong [where f = "\<lambda>k. le_bytes k x"]) simp
  then show ?thesis by simp
qed

lemma le_bytes_8:
  "le_bytes 8 x = [word_of_int x, word_of_int (drop_bit 8 x), word_of_int (drop_bit 16 x),
     word_of_int (drop_bit 24 x), word_of_int (drop_bit 32 x), word_of_int (drop_bit 40 x),
     word_of_int (drop_bit 48 x), word_of_int (drop_bit 56 x)]"
proof -
  have "le_bytes 8 x = le_bytes (Suc (Suc (Suc (Suc (Suc (Suc (Suc (Suc 0)))))))) x"
    by (rule arg_cong [where f = "\<lambda>k. le_bytes k x"]) simp
  then show ?thesis by simp
qed

lemma head16_le_bytes:
  "head16 bo v = (case bo of LittleEndian \<Rightarrow> le_bytes 2 (uint v) | BigEndian \<Rightarrow> rev (le_bytes 2 (uint v)))"
  apply (simp only: head16_def ucast_drop_bit_byte)
  apply (simp only: ucast_byte le_bytes_2)
  apply (cases bo; simp)
  done

lemma head32_le_bytes:
  "head32 bo v = (case bo of LittleEndian \<Rightarrow> le_bytes 4 (uint v) | BigEndian \<Rightarrow> rev (le_bytes 4 (uint v)))"
  apply (simp only: head32_def ucast_drop_bit_byte)
  apply (simp only: ucast_byte le_bytes_4)
  apply (cases bo; simp)
  done

lemma head64_le_bytes:
  "head64 bo v = (case bo of LittleEndian \<Rightarrow> le_bytes 8 (uint v) | BigEndian \<Rightarrow> rev (le_bytes 8 (uint v)))"
  apply (simp only: head64_def ucast_drop_bit_byte)
  apply (simp only: ucast_byte le_bytes_8)
  apply (cases bo; simp)
  done

lemma wire_value_head16: "wire_value bo (head16 bo v) = uint v"
proof -
  have "uint v mod 256 ^ 2 = uint v" using uint_bounded [of v] by simp
  then show ?thesis
    by (cases bo) (simp_all add: wire_value_def head16_le_bytes be_value_le_bytes)
qed

lemma wire_value_head32: "wire_value bo (head32 bo v) = uint v"
proof -
  have "uint v mod 256 ^ 4 = uint v" using uint_bounded [of v] by simp
  then show ?thesis
    by (cases bo) (simp_all add: wire_value_def head32_le_bytes be_value_le_bytes)
qed

lemma wire_value_head64: "wire_value bo (head64 bo v) = uint v"
proof -
  have "uint v mod 256 ^ 8 = uint v" using uint_bounded [of v] by simp
  then show ?thesis
    by (cases bo) (simp_all add: wire_value_def head64_le_bytes be_value_le_bytes)
qed

lemma PacketN_Inr:
  assumes "PacketN n bo = Inr p0"
  shows "n \<in> {1, 2, 4, 8}" and "sp_n p0 = n" and "sp_bo p0 = bo"
    and "sp_head p0 = replicate (nat n) 0" and "MaxPacketSize p0 = 0"
    and "encodeHead p0 =
           (if n = 1 then encodeHead1 else if n = 2 then encodeHead2 bo
            else if n = 4 then encodeHead4 bo else encodeHead8 bo)"
    and "decodeHead p0 =
           (if n = 1 then decodeHead1 else if n = 2 then decodeHead2 bo
            else if n = 4 then decodeHead4 bo else decodeHead8 bo)"
  using assms by (auto simp: PacketN_def make_bytes_def split: if_splits)

lemma length_head16 [simp]: "length (head16 bo v) = 2"
  by (cases bo) (simp_all add: head16_def)

lemma length_head32 [simp]: "length (head32 bo v) = 4"
  by (cases bo) (simp_all add: head32_def)

lemma length_head64 [simp]: "length (head64 bo v) = 8"
  by (cases bo) (simp_all add: head64_def)

lemma length_header: "n \<in> {1, 2, 4, 8} \<Longrightarrow> length (header n bo x) = nat n"
  by (auto simp: header_def)

lemma encodeHead_eq:
  assumes "PacketN n bo = Inr p0" and "n \<le> int (length d)"
  shows "encodeHead p0 d = Inr (header n bo (int (length d) - n) @ drop (nat n) d)"
proof -
  note P = PacketN_Inr [OF assms(1)]
  from P(1) consider "n = 1" | "n = 2" | "n = 4" | "n = 8" by auto
  then show ?thesis
  proof cases
    case 1
    with assms(2) obtain x xs where d: "d = x # xs" by (cases d) simp_all
    with 1 show ?thesis
      by (simp add: P(6) encodeHead1_def header_def)
  next
    case 2
    with assms(2) have "2 \<le> length d" by simp
    with 2 show ?thesis
      by (simp add: P(6) encodeHead2_def header_def PutUint16_eq)
  next
    case 3
    with assms(2) have "4 \<le> length d" by simp
    with 3 show ?thesis
      by (simp add: P(6) encodeHead4_def header_def PutUint32_eq)
  next
    case 4
    with assms(2) have "8 \<le> length d" by simp
    with 4 show ?thesis
      by (simp add: P(6) encodeHead8_def header_def PutUint64_eq)
  qed
qed

lemma decodeHead_header:
  assumes "PacketN n bo = Inr p0" and "0 \<le> x" and "x < 2 ^ (8 * nat n)" and "x < 2 ^ 63"
  shows "decodeHead p0 (header n bo x) = Inr x"
proof -
  note P = PacketN_Inr [OF assms(1)]
  from P(1) consider "n = 1" | "n = 2" | "n = 4" | "n = 8" by auto
  then show ?thesis
  proof cases
    case 1
    with assms show ?thesis
      by (simp add: P(7) decodeHead1_def header_def uint_word_of_int)
  next
    case 2
    with assms show ?thesis
      using Uint16_head16 [of bo "word_of_int x" "[]"]
      by (simp add: P(7) decodeHead2_def header_def uint_word_of_int)
  next
    case 3
    with assms show ?thesis
      using Uint32_head32 [of bo "word_of_int x" "[]"]
      by (simp add: P(7) decodeHead4_def header_def uint_word_of_int)
  next
    case 4
    have "sint (word_of_int x :: 64 word) = x"
      using assms(2,4) by (simp add: sint_sbintrunc' signed_take_bit_int_eq_self)
    with 4 show ?thesis
      using Uint64_head64 [of bo "word_of_int x" "[]"]
      by (simp add: P(7) decodeHead8_def header_def)
  qed
qed

lemma wire_value_header:
  assumes "n \<in> {1, 2, 4, 8}"
  shows "wire_value bo (header n bo x) = x mod 2 ^ (8 * nat n)"
proof -
  from assms consider "n = 1" | "n = 2" | "n = 4" | "n = 8" by auto
  then show ?thesis
  proof cases
    case 1
    then show ?thesis
      by (cases bo) (simp_all add: header_def wire_value_def be_value_def uint_word_of_int)
  next
    case 2
    then show ?thesis by (simp add: header_def wire_value_head16 uint_word_of_int)
  next
    case 3
    then show ?thesis by (simp add: header_def wire_value_head32 uint_word_of_int)
  next
    case 4
    then show ?thesis by (simp add: header_def wire_value_head64 uint_word_of_int)
  qed
qed

text \<open>
  Every header of \<open>n\<close> bytes is the header of its own unsigned value, so \<open>decodeHead\<close>
  returns that value, except that for \<open>n = 8\<close> a value of \<open>2 ^ 63\<close> or more comes out
  \<open>2 ^ 64\<close> lower: negative.
\<close>

lemma word_of_int_low_byte: "(word_of_int (v * 256 + uint b) :: byte) = b"
proof -
  have "(word_of_int (v * 256 + uint b) :: byte) = word_of_int v * 256 + b"
    by (simp add: word_of_int_uint)
  also have "(256 :: byte) = 0" by simp
  finally show ?thesis by simp
qed

lemma drop_low_byte: "drop_bit 8 (v * 256 + uint (b :: byte)) = v"
proof -
  have "0 \<le> uint b" "uint b < 256" using uint_bounded [of b] by simp_all
  then have "(v * 256 + uint b) div 256 = v" by simp
  then show ?thesis by (simp add: drop_bit_eq_div)
qed

lemma le_bytes_be_value: "le_bytes (length bs) (be_value (rev bs)) = bs"
proof (induction bs)
  case Nil
  show ?case by simp
next
  case (Cons b bs)
  let ?v = "be_value (rev bs)"
  have "le_bytes (length (b # bs)) (be_value (rev (b # bs))) =
      le_bytes (Suc (length bs)) (?v * 256 + uint b)"
    by (simp add: be_value_snoc)
  also have "\<dots> = word_of_int (?v * 256 + uint b) #
      le_bytes (length bs) (drop_bit 8 (?v * 256 + uint b))"
    by (simp only: le_bytes.simps)
  also have "\<dots> = b # le_bytes (length bs) ?v"
    by (simp only: word_of_int_low_byte drop_low_byte)
  finally show ?case using Cons by simp
qed

lemma be_value_bounds: "0 \<le> be_value bs \<and> be_value bs < 256 ^ length bs"
proof (induction bs rule: rev_induct)
  case Nil
  show ?case by (simp add: be_value_def)
next
  case (snoc b bs)
  have b: "0 \<le> uint b" "uint b < 256" using uint_bounded [of b] by simp_all
  from snoc have "be_value bs + 1 \<le> 256 ^ length bs" by simp
  then have "(be_value bs + 1) * 256 \<le> 256 ^ length bs * 256" by (rule mult_right_mono) simp
  with snoc b show ?case by (simp add: be_value_snoc algebra_simps)
qed

lemma header_le_bytes:
  assumes "n \<in> {1, 2, 4, 8}" and "0 \<le> x" and "x < 256 ^ nat n"
  shows "header n bo x =
    (case bo of LittleEndian \<Rightarrow> le_bytes (nat n) x | BigEndian \<Rightarrow> rev (le_bytes (nat n) x))"
proof -
  from assms(1) consider "n = 1" | "n = 2" | "n = 4" | "n = 8" by auto
  then show ?thesis
  proof cases
    case 1
    then show ?thesis by (cases bo) (simp_all add: header_def)
  next
    case 2
    with assms have "uint (word_of_int x :: 16 word) = x" by (simp add: uint_word_of_int)
    with 2 show ?thesis by (cases bo) (simp_all add: header_def head16_le_bytes)
  next
    case 3
    with assms have "uint (word_of_int x :: 32 word) = x" by (simp add: uint_word_of_int)
    with 3 show ?thesis by (cases bo) (simp_all add: header_def head32_le_bytes)
  next
    case 4
    with assms have "uint (word_of_int x :: 64 word) = x" by (simp add: uint_word_of_int)
    with 4 show ?thesis by (cases bo) (simp_all add: header_def head64_le_bytes)
  qed
qed

lemma header_wire_value:
  assumes "n \<in> {1, 2, 4, 8}" and "length h = nat n"
  shows "header n bo (wire_value bo h) = h"
proof (cases bo)
  case BigEndian
  from be_value_bounds [of h] assms(2)
  have b: "0 \<le> be_value h" "be_value h < 256 ^ nat n" by simp_all
  from le_bytes_be_value [of "rev h"] assms(2)
  have "le_bytes (nat n) (be_value h) = rev h" by simp
  with header_le_bytes [OF assms(1) b, of bo] BigEndian show ?thesis
    by (simp add: wire_value_def)
next
  case LittleEndian
  from be_value_bounds [of "rev h"] assms(2)
  have b: "0 \<le> be_value (rev h)" "be_value (rev h) < 256 ^ nat n" by simp_all
  from le_bytes_be_value [of h] assms(2)
  have "le_bytes (nat n) (be_value (rev h)) = h" by simp
  with header_le_bytes [OF assms(1) b, of bo] LittleEndian show ?thesis
    by (simp add: wire_value_def)
qed

lemma wire_value_bounds:
  "0 \<le> wire_value bo h \<and> wire_value bo h < 256 ^ length h"
  using be_value_bounds [of h] be_value_bounds [of "rev h"]
  by (cases bo) (simp_all add: wire_value_def)

lemma sint_top_half:
  assumes "2 ^ 63 \<le> x" and "x < 2 ^ 64"
  shows "sint (word_of_int x :: 64 word) = x - 2 ^ 64"
proof -
  have "sint (word_of_int x :: 64 word) = signed_take_bit 63 x"
    by (simp add: sint_sbintrunc')
  also have "\<dots> = take_bit 64 (x + 2 ^ 63) - 2 ^ 63"
    using signed_take_bit_eq_take_bit_shift [of 63 x] by simp
  finally have s: "sint (word_of_int x :: 64 word) = (x + 2 ^ 63) mod 2 ^ 64 - 2 ^ 63"
    by (simp only: take_bit_eq_mod)
  have "(x + 2 ^ 63) mod 2 ^ 64 = ((x + 2 ^ 63 - 2 ^ 64) + 2 ^ 64) mod 2 ^ 64"
    by (rule arg_cong [where f = "\<lambda>y. y mod 2 ^ 64"]) simp
  also have "\<dots> = (x + 2 ^ 63 - 2 ^ 64) mod 2 ^ 64"
    by (rule mod_add_self2)
  also have "\<dots> = x + 2 ^ 63 - 2 ^ 64"
    using assms by (intro mod_pos_pos_trivial) simp_all
  finally show ?thesis using s by simp
qed

lemma decodeHead_wire:
  assumes "PacketN n bo = Inr p0" and "length h = nat n"
  shows "decodeHead p0 h =
    Inr (if n = 8 \<and> 2 ^ 63 \<le> wire_value bo h then wire_value bo h - 2 ^ 64 else wire_value bo h)"
proof -
  note Pn = PacketN_Inr [OF assms(1)]
  let ?x = "wire_value bo h"
  have hx: "header n bo ?x = h" by (rule header_wire_value [OF Pn(1) assms(2)])
  from wire_value_bounds [of bo h] assms(2)
  have b: "0 \<le> ?x" "?x < 256 ^ nat n" by simp_all
  have p: "(256 :: int) ^ nat n = 2 ^ (8 * nat n)"
    by (simp add: power_mult)
  show ?thesis
  proof (cases "n = 8 \<and> 2 ^ 63 \<le> ?x")
    case False
    have "?x < 2 ^ 63"
    proof (cases "n = 8")
      case True
      with False show ?thesis by simp
    next
      case n8: False
      with Pn(1) have "nat n \<le> 4" by auto
      then have "(256 :: int) ^ nat n \<le> 256 ^ 4" by (intro power_increasing) simp_all
      with b(2) show ?thesis by simp
    qed
    with decodeHead_header [OF assms(1) b(1)] b(2) p hx False show ?thesis
      by simp
  next
    case True
    then have n8: "n = 8" and top: "2 ^ 63 \<le> ?x" by simp_all
    from b(2) n8 have lt: "?x < 2 ^ 64" by simp
    have "decodeHead p0 (header n bo ?x) = Inr (sint (word_of_int ?x :: 64 word))"
      using n8 Uint64_head64 [of bo "word_of_int ?x" "[]"]
      by (simp add: Pn(7) decodeHead8_def header_def)
    with hx True sint_top_half [OF top lt] show ?thesis by simp
  qed
qed

section \<open>Evaluating the program on concrete inputs\<close>

lemma replicate_num: "replicate (numeral k) x = x # replicate (pred_numeral k) x"
  by (simp add: numeral_eq_Suc)

lemmas proto_defs =
  PacketN_def make_bytes_def reslice_def slice_cap_def slice_len_def nil_slice_def
  Packet_def Write_def writer_Write_def appendMessage_def append_slice_def
  encodeHead1_def encodeHead2_def encodeHead4_def encodeHead8_def
  decodeHead1_def decodeHead2_def decodeHead4_def decodeHead8_def
  PutUint16_def PutUint32_def PutUint64_def Uint16_def Uint32_def Uint64_def
  Read_def ReadFull_def ReadFull_loop.simps reader_Read_def

section \<open>What Read leaves in the buffer\<close>

lemma Read_header_short:
  assumes "length (avail (events rd)) < length (sp_head p)"
  shows "\<exists>p' e r1. Read p rd buffer = Inr (p', r1, buffer, Some e)"
proof -
  from ReadFull_short [OF assms] obtain h k e r1
    where "ReadFull rd (sp_head p) = (h, k, Some e, r1)" by blast
  then show ?thesis by (simp add: Read_def)
qed

lemma resize_elems:
  assumes "(if slice_cap s < k then make_bytes k k else reslice s k) = Inr d"
  shows "0 \<le> k \<and> length (elems d) = nat k"
  using assms
  by (auto simp: make_bytes_def reslice_def slice_cap_def split: if_splits)

text \<open>
  C5. Whenever \<open>Read\<close> returns without an error, the reader held a whole packet: the
  header decodes to its unsigned value in the protocol's byte order, the buffer's logical
  length is that value, its bytes are the bytes that follow the \<open>n\<close> header bytes in the
  stream (none of the header bytes), and the reader has moved past header and payload.
  The protocol is any one built by \<open>PacketN\<close>, with any content of the scratch region
  and any \<open>MaxPacketSize\<close>.
\<close>

theorem Read_success_leaves_payload:
  assumes "PacketN n byteOrder = Inr p0" and "length h = nat n"
    and "Read (p0\<lparr>sp_head := h, MaxPacketSize := M\<rparr>) rd buffer = Inr (p', rd', buffer', None)"
  shows "decodeHead p0 (take (nat n) (avail (events rd))) =
           Inr (wire_value byteOrder (take (nat n) (avail (events rd)))) \<and>
      slice_len (Data buffer') = wire_value byteOrder (take (nat n) (avail (events rd))) \<and>
      nat n + nat (wire_value byteOrder (take (nat n) (avail (events rd)))) \<le> length (avail (events rd)) \<and>
      elems (Data buffer') =
        take (nat (wire_value byteOrder (take (nat n) (avail (events rd)))))
          (drop (nat n) (avail (events rd))) \<and>
      avail (events rd') =
        drop (nat n + nat (wire_value byteOrder (take (nat n) (avail (events rd)))))
          (avail (events rd))"
proof -
  let ?p = "p0\<lparr>sp_head := h, MaxPacketSize := M\<rparr>"
  let ?a = "avail (events rd)"
  let ?v = "wire_value byteOrder (take (nat n) ?a)"
  note Pn = PacketN_Inr [OF assms(1)]
  have hl: "length (sp_head ?p) = nat n" using assms(2) by simp
  have enough: "nat n \<le> length ?a"
  proof (rule ccontr)
    assume "\<not> nat n \<le> length ?a"
    then have "length ?a < length (sp_head ?p)" using hl by simp
    from Read_header_short [OF this, of buffer] assms(3) show False by auto
  qed
  with ReadFull_enough [of h rd] assms(2) obtain r1
    where rf1: "ReadFull rd h = (take (nat n) ?a, nat n, None, r1)"
      and r1: "avail (events r1) = drop (nat n) ?a" by auto
  from enough have lt: "length (take (nat n) ?a) = nat n" by simp
  obtain s where s: "decodeHead p0 (take (nat n) ?a) = Inr s"
    and sv: "s = (if n = 8 \<and> 2 ^ 63 \<le> ?v then ?v - 2 ^ 64 else ?v)"
    using decodeHead_wire [OF assms(1) lt] by simp
  note rd = assms(3) [unfolded Read_def]
  from rd have guard: "\<not> (M > 0 \<and> s > M)"
    by (auto simp: rf1 s Let_def split: if_splits)
  from rd guard obtain d where
    d: "(if slice_cap (Data buffer) < s then make_bytes s s else reslice (Data buffer) s) = Inr d"
    by (cases "if slice_cap (Data buffer) < s then make_bytes s s else reslice (Data buffer) s")
       (auto simp: rf1 s Let_def)
  from resize_elems [OF d] have s0: "0 \<le> s" and ld: "length (elems d) = nat s" by simp_all
  have "s = ?v"
  proof (cases "n = 8 \<and> 2 ^ 63 \<le> ?v")
    case True
    then have "(256 :: int) ^ nat n = 2 ^ 64" by simp
    with wire_value_bounds [of byteOrder "take (nat n) ?a"] lt
    have "?v < 2 ^ 64" by simp
    moreover have "s = ?v - 2 ^ 64" unfolding sv using True by (rule if_P)
    ultimately have "s < 0" by simp
    with s0 show ?thesis by simp
  next
    case False
    with sv show ?thesis by simp
  qed
  have eq: "Read ?p rd buffer =
      (if s = 0 then Inr (?p\<lparr>sp_head := take (nat n) ?a\<rparr>, r1, buffer\<lparr>Data := d\<rparr>, None)
       else (case ReadFull r1 (elems d) of
               (bs, _, err, r2) \<Rightarrow>
                 Inr (?p\<lparr>sp_head := take (nat n) ?a\<rparr>, r2, buffer\<lparr>Data := d\<lparr>elems := bs\<rparr>\<rparr>, err)))"
  proof -
    from guard have g: "(0 < M \<and> M < s) = False" by simp
    show ?thesis
      by (simp add: Read_def rf1 s Let_def g d split del: if_split cong: if_cong)
  qed
  have "slice_len (Data buffer') = s \<and> nat n + nat s \<le> length ?a \<and>
      elems (Data buffer') = take (nat s) (drop (nat n) ?a) \<and>
      avail (events rd') = drop (nat n + nat s) ?a"
  proof (cases "s = 0")
    case True
    with eq assms(3) have "buffer' = buffer\<lparr>Data := d\<rparr>" "rd' = r1"
      by simp_all
    with True ld r1 enough show ?thesis
      by (auto simp: slice_len_def)
  next
    case False
    obtain bs k err r2 where rf: "ReadFull r1 (elems d) = (bs, k, err, r2)"
      by (cases "ReadFull r1 (elems d)") auto
    with eq assms(3) False
    have res: "buffer' = buffer\<lparr>Data := d\<lparr>elems := bs\<rparr>\<rparr>" "rd' = r2" "err = None"
      by simp_all
    from ReadFull_None [OF rf [unfolded res(3)]] ld r1
    have "nat s \<le> length (drop (nat n) ?a)" "bs = take (nat s) (drop (nat n) ?a)"
      "avail (events r2) = drop (nat s) (drop (nat n) ?a)" by simp_all
    with res s0 enough show ?thesis
      by (auto simp: slice_len_def add.commute)
  qed
  with s \<open>s = ?v\<close> show ?thesis by simp
qed

theorem Read_success_leaves_payload_witness:
  "Read ((projr (PacketN 2 BigEndian))\<lparr>sp_head := [0, 0], MaxPacketSize := 0\<rparr>)
     \<lparr>events = [Chunk [0, 5, 104], Chunk [], Chunk [101, 108, 108, 111, 9]], calls = 0\<rparr>
     \<lparr>Data = nil_slice\<rparr> =
   Inr ((projr (PacketN 2 BigEndian))\<lparr>sp_head := [0, 5], MaxPacketSize := 0\<rparr>,
        \<lparr>events = [Chunk [9]], calls = 4\<rparr>,
        \<lparr>Data = \<lparr>elems = [104, 101, 108, 108, 111], spare = []\<rparr>\<rparr>, None) \<and>
   (decodeHead (projr (PacketN 2 BigEndian))
        (take (nat 2) (avail (events
           \<lparr>events = [Chunk [0, 5, 104], Chunk [], Chunk [101, 108, 108, 111, 9]], calls = 0\<rparr>))) =
      Inr (wire_value BigEndian (take (nat 2) (avail (events
           \<lparr>events = [Chunk [0, 5, 104], Chunk [], Chunk [101, 108, 108, 111, 9]], calls = 0\<rparr>)))) \<and>
    slice_len (Data \<lparr>Data = \<lparr>elems = [104, 101, 108, 108, 111], spare = []\<rparr>\<rparr>) =
      wire_value BigEndian (take (nat 2) (avail (events
           \<lparr>events = [Chunk [0, 5, 104], Chunk [], Chunk [101, 108, 108, 111, 9]], calls = 0\<rparr>))) \<and>
    nat 2 + nat (wire_value BigEndian (take (nat 2) (avail (events
           \<lparr>events = [Chunk [0, 5, 104], Chunk [], Chunk [101, 108, 108, 111, 9]], calls = 0\<rparr>))))
      \<le> length (avail (events
           \<lparr>events = [Chunk [0, 5, 104], Chunk [], Chunk [101, 108, 108, 111, 9]], calls = 0\<rparr>)) \<and>
    elems (Data \<lparr>Data = \<lparr>elems = [104, 101, 108, 108, 111], spare = []\<rparr>\<rparr>) =
      take (nat (wire_value BigEndian (take (nat 2) (avail (events
           \<lparr>events = [Chunk [0, 5, 104], Chunk [], Chunk [101, 108, 108, 111, 9]], calls = 0\<rparr>)))))
        (drop (nat 2) (avail (events
           \<lparr>events = [Chunk [0, 5, 104], Chunk [], Chunk [101, 108, 108, 111, 9]], calls = 0\<rparr>))) \<and>
    avail (events \<lparr>events = [Chunk [9]], calls = 4\<rparr>) =
      drop (nat 2 + nat (wire_value BigEndian (take (nat 2) (avail (events
           \<lparr>events = [Chunk [0, 5, 104], Chunk [], Chunk [101, 108, 108, 111, 9]], calls = 0\<rparr>)))))
        (avail (events
           \<lparr>events = [Chunk [0, 5, 104], Chunk [], Chunk [101, 108, 108, 111, 9]], calls = 0\<rparr>)))"
proof -
  have h1: "PacketN 2 BigEndian = Inr (projr (PacketN 2 BigEndian))"
    by (simp add: proto_defs)
  have h2: "length [0, 0 :: byte] = nat 2" by simp
  have h3: "Read ((projr (PacketN 2 BigEndian))\<lparr>sp_head := [0, 0], MaxPacketSize := 0\<rparr>)
     \<lparr>events = [Chunk [0, 5, 104], Chunk [], Chunk [101, 108, 108, 111, 9]], calls = 0\<rparr>
     \<lparr>Data = nil_slice\<rparr> =
   Inr ((projr (PacketN 2 BigEndian))\<lparr>sp_head := [0, 5], MaxPacketSize := 0\<rparr>,
        \<lparr>events = [Chunk [9]], calls = 4\<rparr>,
        \<lparr>Data = \<lparr>elems = [104, 101, 108, 108, 111], spare = []\<rparr>\<rparr>, None)"
    by (simp add: proto_defs)
  from h3 Read_success_leaves_payload [OF h1 h2 h3] show ?thesis
    by (rule conjI)
qed

section \<open>The maximum packet size when reading\<close>

lemma Read_guard:
  assumes "ReadFull rd (sp_head p) = (h', k, None, r1)"
    and "decodeHead p h' = Inr s" and "0 < MaxPacketSize p" and "MaxPacketSize p < s"
  shows "Read p rd buffer = Inr (p\<lparr>sp_head := h'\<rparr>, r1, buffer, Some PacketTooLargeError)"
  using assms by (simp add: Read_def Let_def)

text \<open>
  With a maximum \<open>M > 0\<close> and a header whose unsigned value is above \<open>M\<close> and below
  \<open>2 ^ 63\<close> (as every header of one, two or four bytes is), \<open>Read\<close> returns
  \<open>PacketTooLargeError\<close>, the value that the guard of \<open>Write\<close> returns as well. The
  reader is left exactly where the read of the header left it: \<open>n\<close> bytes of the stream
  are gone and no payload byte.
\<close>

lemma Read_too_large:
  assumes "PacketN n byteOrder = Inr p0" and "length h = nat n"
    and "0 < M" and "nat n \<le> length (avail (events rd))"
    and "M < wire_value byteOrder (take (nat n) (avail (events rd)))"
    and "wire_value byteOrder (take (nat n) (avail (events rd))) < 2 ^ 63"
  shows "\<exists>p' rd' k.
      Read (p0\<lparr>sp_head := h, MaxPacketSize := M\<rparr>) rd buffer =
        Inr (p', rd', buffer, Some PacketTooLargeError) \<and>
      ReadFull rd h = (take (nat n) (avail (events rd)), k, None, rd') \<and>
      avail (events rd') = drop (nat n) (avail (events rd))"
proof -
  let ?p = "p0\<lparr>sp_head := h, MaxPacketSize := M\<rparr>"
  let ?a = "avail (events rd)"
  let ?v = "wire_value byteOrder (take (nat n) ?a)"
  from ReadFull_enough [of h rd] assms(2,4) obtain r1
    where rf1: "ReadFull rd h = (take (nat n) ?a, nat n, None, r1)"
      and r1: "avail (events r1) = drop (nat n) ?a" by auto
  from assms(4) have lt: "length (take (nat n) ?a) = nat n" by simp
  from decodeHead_wire [OF assms(1) lt] assms(6)
  have dec: "decodeHead p0 (take (nat n) ?a) = Inr ?v" by simp
  have "Read ?p rd buffer =
      Inr (?p\<lparr>sp_head := take (nat n) ?a\<rparr>, r1, buffer, Some PacketTooLargeError)"
    by (rule Read_guard [where k = "nat n" and s = ?v]) (simp_all add: rf1 assms dec)
  then show ?thesis using rf1 r1 by blast
qed

text \<open>
  C6. With \<open>n = 8\<close> the guard of \<open>Read\<close> lets a header pass whose value is \<open>2 ^ 63\<close> or
  more: the little-endian header \<open>00 00 00 00 00 00 00 80\<close> declares a payload of
  \<open>2 ^ 63\<close> bytes, far above the maximum \<open>1024\<close>, and \<open>Read\<close> does not return
  \<open>PacketTooLargeError\<close> but panics.
\<close>

theorem Read_guard_bypassed:
  "wire_value LittleEndian [0, 0, 0, 0, 0, 0, 0, 128] = 2 ^ 63 \<and>
   Read ((projr (PacketN 8 LittleEndian))\<lparr>MaxPacketSize := 1024\<rparr>)
     \<lparr>events = [Chunk [0, 0, 0, 0, 0, 0, 0, 128, 1, 2, 3]], calls = 0\<rparr>
     \<lparr>Data = nil_slice\<rparr> = Inl SliceBoundsOutOfRange"
  by (simp add: proto_defs wire_value_def be_value_def)

text \<open>
  C9. When \<open>Read\<close> fails before it resizes the buffer, the buffer it returns is the
  buffer it was given. That is the case when the reader cannot deliver \<open>n\<close> header
  bytes (it fails or ends first), and when the decoded length exceeds a maximum
  \<open>M > 0\<close>.
\<close>

theorem Read_early_error_keeps_buffer:
  assumes "PacketN n byteOrder = Inr p0" and "length h = nat n"
    and "length (avail (events rd)) < nat n \<or>
         (\<exists>s. decodeHead p0 (take (nat n) (avail (events rd))) = Inr s \<and> 0 < M \<and> M < s)"
  shows "\<exists>p' rd' e. Read (p0\<lparr>sp_head := h, MaxPacketSize := M\<rparr>) rd buffer =
           Inr (p', rd', buffer, Some e)"
proof (cases "length (avail (events rd)) < nat n")
  case True
  then have "length (avail (events rd)) < length (sp_head (p0\<lparr>sp_head := h, MaxPacketSize := M\<rparr>))"
    using assms(2) by simp
  from Read_header_short [OF this] show ?thesis by blast
next
  case False
  with assms(3) obtain s where s: "decodeHead p0 (take (nat n) (avail (events rd))) = Inr s"
    "0 < M" "M < s" by blast
  from False ReadFull_enough [of h rd] assms(2) obtain r1
    where rf1: "ReadFull rd h = (take (nat n) (avail (events rd)), nat n, None, r1)" by auto
  have "Read (p0\<lparr>sp_head := h, MaxPacketSize := M\<rparr>) rd buffer =
      Inr (p0\<lparr>sp_head := h, MaxPacketSize := M\<rparr>\<lparr>sp_head := take (nat n) (avail (events rd))\<rparr>,
           r1, buffer, Some PacketTooLargeError)"
    by (rule Read_guard [where k = "nat n" and s = s]) (simp_all add: rf1 s)
  then show ?thesis by blast
qed

theorem Read_early_error_keeps_buffer_witness:
  "(\<exists>p' rd' e.
      Read ((projr (PacketN 2 BigEndian))\<lparr>sp_head := [0, 0], MaxPacketSize := 4\<rparr>)
        \<lparr>events = [Chunk [0]], calls = 0\<rparr>
        \<lparr>Data = \<lparr>elems = [9, 9, 9], spare = [8]\<rparr>\<rparr> =
        Inr (p', rd', \<lparr>Data = \<lparr>elems = [9, 9, 9], spare = [8]\<rparr>\<rparr>, Some e)) \<and>
   (\<exists>p' rd' e.
      Read ((projr (PacketN 2 BigEndian))\<lparr>sp_head := [0, 0], MaxPacketSize := 4\<rparr>)
        \<lparr>events = [Chunk [0, 5, 1, 2, 3, 4, 5]], calls = 0\<rparr>
        \<lparr>Data = \<lparr>elems = [9, 9, 9], spare = [8]\<rparr>\<rparr> =
        Inr (p', rd', \<lparr>Data = \<lparr>elems = [9, 9, 9], spare = [8]\<rparr>\<rparr>, Some e))"
  by (rule conjI; rule Read_early_error_keeps_buffer [where n = 2 and byteOrder = BigEndian])
     (simp_all add: proto_defs)

section \<open>Write\<close>

lemma Write_ok:
  assumes "PacketN n bo = Inr p0" and "werr w = None" and "n \<le> slice_len (Data b)"
    and "M \<le> 0 \<or> slice_len (Data b) \<le> M"
  shows "Write (p0\<lparr>sp_head := h, MaxPacketSize := M\<rparr>) w b =
     Inr (w\<lparr>sink := sink w @ header n bo (slice_len (Data b) - n) @ drop (nat n) (elems (Data b))\<rparr>,
          b\<lparr>Data := (Data b)\<lparr>elems := header n bo (slice_len (Data b) - n) @ drop (nat n) (elems (Data b))\<rparr>\<rparr>,
          None)"
proof -
  from assms(3) have le: "n \<le> int (length (elems (Data b)))" by (simp add: slice_len_def)
  from assms(4) have g: "\<not> (0 < M \<and> M < slice_len (Data b))" by auto
  show ?thesis
    using assms(2) g
    by (simp add: Write_def encodeHead_eq [OF assms(1) le] writer_Write_def slice_len_def)
qed

lemma Write_guard_iff:
  assumes "PacketN n bo = Inr p0" and "werr w = None"
  shows "(\<exists>w' b'. Write (p0\<lparr>sp_head := h, MaxPacketSize := M\<rparr>) w b = Inr (w', b', Some PacketTooLargeError))
         \<longleftrightarrow> 0 < M \<and> M < slice_len (Data b)"
proof (cases "0 < M \<and> M < slice_len (Data b)")
  case True
  then show ?thesis by (simp add: Write_def)
next
  case False
  then show ?thesis
    using assms(2)
    by (cases "encodeHead p0 (elems (Data b))") (auto simp: Write_def writer_Write_def)
qed

text \<open>
  C10. Without a maximum (\<open>MaxPacketSize = 0\<close>) \<open>Write\<close> does not check that the
  payload length fits the header. For a buffer whose payload length is \<open>2 ^ (8 * n)\<close> or
  more and a writer that does not fail, \<open>Write\<close> succeeds; the writer receives the
  buffer with its first \<open>n\<close> bytes replaced, and these bytes, read as an unsigned
  integer in the protocol's byte order, are the payload length modulo \<open>2 ^ (8 * n)\<close>,
  which is less than the true length.
\<close>

theorem Write_unlimited_wraps_header:
  assumes "PacketN n byteOrder = Inr p0" and "werr w = None"
    and "2 ^ (8 * nat n) \<le> slice_len (Data buffer) - n"
  shows "\<exists>d. Write (p0\<lparr>sp_head := h, MaxPacketSize := 0\<rparr>) w buffer =
           Inr (w\<lparr>sink := sink w @ d\<rparr>, buffer\<lparr>Data := (Data buffer)\<lparr>elems := d\<rparr>\<rparr>, None) \<and>
         length d = length (elems (Data buffer)) \<and>
         drop (nat n) d = drop (nat n) (elems (Data buffer)) \<and>
         wire_value byteOrder (take (nat n) d) = (slice_len (Data buffer) - n) mod 2 ^ (8 * nat n) \<and>
         wire_value byteOrder (take (nat n) d) < slice_len (Data buffer) - n"
proof -
  note P = PacketN_Inr [OF assms(1)]
  let ?e = "elems (Data buffer)"
  let ?hd = "header n byteOrder (int (length ?e) - n)"
  have "(0::int) \<le> 2 ^ (8 * nat n)" by simp
  from this assms(3) have "0 \<le> slice_len (Data buffer) - n" by (rule order_trans)
  then have le: "n \<le> int (length ?e)" by (simp add: slice_len_def)
  have enc: "encodeHead p0 ?e = Inr (?hd @ drop (nat n) ?e)"
    by (rule encodeHead_eq [OF assms(1) le])
  have lh: "length ?hd = nat n" by (rule length_header [OF P(1)])
  have wv: "wire_value byteOrder ?hd = (int (length ?e) - n) mod 2 ^ (8 * nat n)"
    by (rule wire_value_header [OF P(1)])
  have "(int (length ?e) - n) mod 2 ^ (8 * nat n) < 2 ^ (8 * nat n)"
    by simp
  from this assms(3) [unfolded slice_len_def]
  have lt: "(int (length ?e) - n) mod 2 ^ (8 * nat n) < int (length ?e) - n"
    by (rule less_le_trans)
  have "Write (p0\<lparr>sp_head := h, MaxPacketSize := 0\<rparr>) w buffer =
      Inr (w\<lparr>sink := sink w @ (?hd @ drop (nat n) ?e)\<rparr>,
           buffer\<lparr>Data := (Data buffer)\<lparr>elems := ?hd @ drop (nat n) ?e\<rparr>\<rparr>, None)"
    using assms(2) by (simp add: Write_def enc writer_Write_def)
  moreover have "length (?hd @ drop (nat n) ?e) = length ?e" using lh le by simp
  ultimately show ?thesis using lh wv lt
    by (intro exI [of _ "?hd @ drop (nat n) ?e"]) (simp add: slice_len_def)
qed

theorem Write_unlimited_wraps_header_witness:
  "\<exists>d. Write ((projr (PacketN 1 LittleEndian))\<lparr>sp_head := [0], MaxPacketSize := 0\<rparr>)
          \<lparr>sink = [], werr = None\<rparr> \<lparr>Data = \<lparr>elems = replicate 257 7, spare = []\<rparr>\<rparr> =
         Inr (\<lparr>sink = [], werr = None\<rparr>\<lparr>sink := sink \<lparr>sink = [], werr = None\<rparr> @ d\<rparr>,
              \<lparr>Data = \<lparr>elems = replicate 257 7, spare = []\<rparr>\<rparr>
                \<lparr>Data := (Data \<lparr>Data = \<lparr>elems = replicate 257 7, spare = []\<rparr>\<rparr>)\<lparr>elems := d\<rparr>\<rparr>,
              None) \<and>
       length d = length (elems (Data \<lparr>Data = \<lparr>elems = replicate 257 7, spare = []\<rparr>\<rparr>)) \<and>
       drop (nat 1) d = drop (nat 1) (elems (Data \<lparr>Data = \<lparr>elems = replicate 257 7, spare = []\<rparr>\<rparr>)) \<and>
       wire_value LittleEndian (take (nat 1) d) =
         (slice_len (Data \<lparr>Data = \<lparr>elems = replicate 257 7, spare = []\<rparr>\<rparr>) - 1) mod 2 ^ (8 * nat 1) \<and>
       wire_value LittleEndian (take (nat 1) d) <
         slice_len (Data \<lparr>Data = \<lparr>elems = replicate 257 7, spare = []\<rparr>\<rparr>) - 1"
  by (rule Write_unlimited_wraps_header [where n = 1 and byteOrder = LittleEndian])
     (simp_all add: proto_defs)

text \<open>
  C2. The guard of \<open>Write\<close> compares the length of the whole buffer, header included,
  with \<open>MaxPacketSize\<close> (\<open>Write_guard_iff\<close>). With \<open>n = 2\<close> and \<open>MaxPacketSize = 4\<close>,
  a buffer of two header bytes and a payload of exactly four bytes is refused with
  \<open>PacketTooLargeError\<close> and the writer receives nothing, although the payload does
  not exceed the maximum.
\<close>

theorem Write_guard_counts_header:
  "Write ((projr (PacketN 2 BigEndian))\<lparr>MaxPacketSize := 4\<rparr>) \<lparr>sink = [], werr = None\<rparr>
     \<lparr>Data = \<lparr>elems = [0, 0, 1, 2, 3, 4], spare = []\<rparr>\<rparr> =
   Inr (\<lparr>sink = [], werr = None\<rparr>,
        \<lparr>Data = \<lparr>elems = [0, 0, 1, 2, 3, 4], spare = []\<rparr>\<rparr>, Some PacketTooLargeError)"
  by (simp add: proto_defs)

section \<open>PacketN\<close>

text \<open>
  \<open>PacketN\<close> succeeds exactly for \<open>n\<close> in \<open>{1, 2, 4, 8}\<close>. For every other \<open>n\<close> that
  is not negative it panics with "unsupported packet head size". For a negative \<open>n\<close> it
  panics in the allocation of the scratch region, which the struct literal runs before
  the \<open>switch\<close> looks at \<open>n\<close>.
\<close>

lemma PacketN_outcome:
  "(PacketN n byteOrder = Inl UnsupportedPacketHeadSize \<longleftrightarrow> 0 \<le> n \<and> n \<notin> {1, 2, 4, 8}) \<and>
   (PacketN n byteOrder = Inl MakesliceLenOutOfRange \<longleftrightarrow> n < 0) \<and>
   ((\<exists>p. PacketN n byteOrder = Inr p) \<longleftrightarrow> n \<in> {1, 2, 4, 8})"
  by (auto simp: PacketN_def make_bytes_def)

text \<open>
  C8. For \<open>n = -1\<close>, which is not in \<open>{1, 2, 4, 8}\<close>, construction does fail, but the
  panic is the runtime's "makeslice: len out of range", not "unsupported packet head
  size".
\<close>

theorem PacketN_negative_panics_in_make:
  "PacketN (- 1) BigEndian = Inl MakesliceLenOutOfRange \<and>
   PacketN (- 1) BigEndian \<noteq> Inl UnsupportedPacketHeadSize"
  by (simp add: PacketN_def make_bytes_def)

section \<open>Packet\<close>

text \<open>
  \<open>Packet\<close> returns exactly when the capacity it ends up with is at least \<open>n\<close>: either
  the recommendation exceeds the buffer's capacity and is at least \<open>n\<close>, or the buffer's
  capacity covers both the recommendation and \<open>n\<close>.
\<close>

lemma Packet_appendMessage:
  assumes "PacketN n bo = Inr p0"
    and "(slice_cap (Data b) < hint \<and> n \<le> hint) \<or> (hint \<le> slice_cap (Data b) \<and> n \<le> slice_cap (Data b))"
  shows "\<exists>b'. Packet (p0\<lparr>sp_head := h, MaxPacketSize := M\<rparr>) b (appendMessage hint P) = Inr (b', None) \<and>
           length (elems (Data b')) = nat n + length P \<and> drop (nat n) (elems (Data b')) = P"
proof -
  note Pn = PacketN_Inr [OF assms(1)]
  from Pn(1) have n0: "0 \<le> n" by auto
  show ?thesis
  proof (cases "slice_cap (Data b) < hint")
    case True
    with assms(2) have "n \<le> hint" by auto
    with True n0 show ?thesis
      by (simp add: Packet_def appendMessage_def append_slice_def make_bytes_def Pn(2))
  next
    case False
    with assms(2) have "n \<le> slice_cap (Data b)" by auto
    with False n0 show ?thesis
      by (simp add: Packet_def appendMessage_def append_slice_def reslice_def Pn(2) slice_cap_def)
  qed
qed

lemma Packet_panics:
  assumes "PacketN n bo = Inr p0"
    and "\<not> ((slice_cap (Data b) < RecommendBufferSize m \<and> n \<le> RecommendBufferSize m) \<or>
            (RecommendBufferSize m \<le> slice_cap (Data b) \<and> n \<le> slice_cap (Data b)))"
  shows "\<exists>f. Packet (p0\<lparr>sp_head := h, MaxPacketSize := M\<rparr>) b m = Inl f"
proof -
  note Pn = PacketN_Inr [OF assms(1)]
  from Pn(1) have n0: "0 \<le> n" by auto
  show ?thesis
  proof (cases "slice_cap (Data b) < RecommendBufferSize m")
    case True
    with assms(2) have "RecommendBufferSize m < n" by auto
    with True n0 show ?thesis
      by (simp add: Packet_def make_bytes_def Pn(2) Let_def)
  next
    case False
    with assms(2) have "slice_cap (Data b) < n" by auto
    with False n0 show ?thesis
      by (simp add: Packet_def reslice_def Pn(2) Let_def)
  qed
qed

text \<open>
  C3. \<open>Packet\<close> with a recommended size below \<open>n\<close> and an empty buffer of capacity
  zero panics instead of reserving \<open>n\<close> header bytes: with the recommendation \<open>0\<close> the
  expression \<open>buffer.Data[:p.n]\<close> is out of the capacity, with the recommendation \<open>1\<close>
  the call \<open>make([]byte, p.n, size)\<close> has a length above its capacity.
\<close>

theorem Packet_small_hint_panics:
  "Packet (projr (PacketN 2 BigEndian)) \<lparr>Data = nil_slice\<rparr> (appendMessage 0 [7]) =
     Inl SliceBoundsOutOfRange \<and>
   Packet (projr (PacketN 2 BigEndian)) \<lparr>Data = nil_slice\<rparr> (appendMessage 1 [7]) =
     Inl MakesliceCapOutOfRange"
  by (simp add: proto_defs)

section \<open>Lengths with the top bit set\<close>

text \<open>
  C4. With \<open>n = 8\<close> a header whose top bit is set decodes to a negative length: eight
  bytes \<open>0xFF\<close> decode to \<open>-1\<close>. The guard does not fire for a negative length, whatever
  \<open>MaxPacketSize\<close> is, and \<open>buffer.Data[0:size]\<close> panics.
\<close>

theorem Read_negative_length_panics:
  "decodeHead (projr (PacketN 8 BigEndian)) [255, 255, 255, 255, 255, 255, 255, 255] = Inr (- 1) \<and>
   Read (projr (PacketN 8 BigEndian))
     \<lparr>events = [Chunk [255, 255, 255, 255, 255, 255, 255, 255, 1, 2, 3]], calls = 0\<rparr>
     \<lparr>Data = nil_slice\<rparr> = Inl SliceBoundsOutOfRange \<and>
   Read ((projr (PacketN 8 BigEndian))\<lparr>MaxPacketSize := 16\<rparr>)
     \<lparr>events = [Chunk [255, 255, 255, 255, 255, 255, 255, 255, 1, 2, 3]], calls = 0\<rparr>
     \<lparr>Data = nil_slice\<rparr> = Inl SliceBoundsOutOfRange"
  by (simp add: proto_defs)

section \<open>Round trip\<close>

lemma Read_packet:
  assumes "PacketN n bo = Inr p0" and "length h = nat n"
    and "avail (events rd) = header n bo (int (length P)) @ P @ rest"
    and "int (length P) < 2 ^ (8 * nat n)" and "int (length P) < 2 ^ 63"
    and "M \<le> 0 \<or> int (length P) \<le> M"
  shows "\<exists>p' rd' d. Read (p0\<lparr>sp_head := h, MaxPacketSize := M\<rparr>) rd b = Inr (p', rd', b\<lparr>Data := d\<rparr>, None) \<and>
           elems d = P \<and> avail (events rd') = rest"
proof -
  note Pn = PacketN_Inr [OF assms(1)]
  let ?p = "p0\<lparr>sp_head := h, MaxPacketSize := M\<rparr>"
  let ?L = "int (length P)"
  let ?hd = "header n bo ?L"
  have lh: "length ?hd = nat n" by (rule length_header [OF Pn(1)])
  from ReadFull_enough [of h rd] assms(2,3) lh obtain r1
    where rf1: "ReadFull rd h = (?hd, nat n, None, r1)"
      and r1: "avail (events r1) = P @ rest" by auto
  have dec: "decodeHead p0 ?hd = Inr ?L"
    by (rule decodeHead_header [OF assms(1) _ assms(4,5)]) simp
  from assms(6) have g: "(0 < M \<and> M < ?L) = False" by auto
  obtain d where d: "(if slice_cap (Data b) < ?L then make_bytes ?L ?L else reslice (Data b) ?L) = Inr d"
    by (cases "slice_cap (Data b) < ?L") (simp_all add: make_bytes_def reslice_def)
  from resize_elems [OF d] have ld: "length (elems d) = length P" by simp
  have eq: "Read ?p rd b =
      (if ?L = 0 then Inr (?p\<lparr>sp_head := ?hd\<rparr>, r1, b\<lparr>Data := d\<rparr>, None)
       else (case ReadFull r1 (elems d) of
               (bs, _, err, r2) \<Rightarrow>
                 Inr (?p\<lparr>sp_head := ?hd\<rparr>, r2, b\<lparr>Data := d\<lparr>elems := bs\<rparr>\<rparr>, err)))"
    by (simp add: Read_def rf1 dec Let_def g d split del: if_split cong: if_cong)
  show ?thesis
  proof (cases "P = []")
    case True
    with eq have "Read ?p rd b = Inr (?p\<lparr>sp_head := ?hd\<rparr>, r1, b\<lparr>Data := d\<rparr>, None)"
      by simp
    with True ld r1 show ?thesis by auto
  next
    case False
    from ReadFull_enough [of "elems d" r1] ld r1 obtain r2
      where rf2: "ReadFull r1 (elems d) = (P, length P, None, r2)"
        and r2: "avail (events r2) = rest" by auto
    from False eq rf2 have "Read ?p rd b =
        Inr (?p\<lparr>sp_head := ?hd\<rparr>, r2, b\<lparr>Data := d\<lparr>elems := P\<rparr>\<rparr>, None)"
      by simp
    with r2 show ?thesis by auto
  qed
qed

text \<open>
  The round trip holds when \<open>Packet\<close> returns, the payload length fits the header (and
  a Go \<open>int\<close>), and header plus payload stay within the maximum, if one is set.
\<close>

lemma roundtrip:
  assumes "PacketN n bo = Inr p0" and "length h = nat n"
    and "(slice_cap (Data b) < hint \<and> n \<le> hint) \<or> (hint \<le> slice_cap (Data b) \<and> n \<le> slice_cap (Data b))"
    and "int (length P) < 2 ^ (8 * nat n)" and "int (length P) < 2 ^ 63"
    and "M \<le> 0 \<or> n + int (length P) \<le> M"
    and "werr w = None" and "sink w = []"
  shows "\<exists>b1 w' b2.
      Packet (p0\<lparr>sp_head := h, MaxPacketSize := M\<rparr>) b (appendMessage hint P) = Inr (b1, None) \<and>
      Write (p0\<lparr>sp_head := h, MaxPacketSize := M\<rparr>) w b1 = Inr (w', b2, None) \<and>
      sink w' = header n bo (int (length P)) @ P \<and>
      (\<forall>rd b3. avail (events rd) = sink w' \<longrightarrow>
         (\<exists>p' rd' d. Read (p0\<lparr>sp_head := h, MaxPacketSize := M\<rparr>) rd b3 =
                        Inr (p', rd', b3\<lparr>Data := d\<rparr>, None) \<and>
                      elems d = P \<and> avail (events rd') = []))"
proof -
  note Pn = PacketN_Inr [OF assms(1)]
  let ?p = "p0\<lparr>sp_head := h, MaxPacketSize := M\<rparr>"
  from Pn(1) have n0: "0 \<le> n" by auto
  from Packet_appendMessage [OF assms(1,3), where h = h and M = M and P = P] obtain b1
    where pk: "Packet ?p b (appendMessage hint P) = Inr (b1, None)"
      and l1: "length (elems (Data b1)) = nat n + length P"
      and d1: "drop (nat n) (elems (Data b1)) = P" by blast
  from l1 n0 have sl: "slice_len (Data b1) = n + int (length P)"
    by (simp add: slice_len_def)
  have wr: "Write ?p w b1 =
     Inr (w\<lparr>sink := sink w @ header n bo (slice_len (Data b1) - n) @ drop (nat n) (elems (Data b1))\<rparr>,
          b1\<lparr>Data := (Data b1)\<lparr>elems := header n bo (slice_len (Data b1) - n) @ drop (nat n) (elems (Data b1))\<rparr>\<rparr>,
          None)"
    using assms(6) sl by (intro Write_ok [OF assms(1,7)]) simp_all
  let ?w' = "w\<lparr>sink := sink w @ header n bo (slice_len (Data b1) - n) @ drop (nat n) (elems (Data b1))\<rparr>"
  have sk: "sink ?w' = header n bo (int (length P)) @ P"
    using sl d1 assms(8) by simp
  have rdp: "\<exists>p' rd' d. Read ?p rd b3 = Inr (p', rd', b3\<lparr>Data := d\<rparr>, None) \<and>
                      elems d = P \<and> avail (events rd') = []"
    if "avail (events rd) = sink ?w'" for rd b3
  proof -
    from that sk have "avail (events rd) = header n bo (int (length P)) @ P @ []" by simp
    moreover from assms(6) n0 have "M \<le> 0 \<or> int (length P) \<le> M" by auto
    ultimately show ?thesis
      by (rule Read_packet [OF assms(1,2) _ assms(4,5)])
  qed
  from pk wr sk rdp show ?thesis by blast
qed

text \<open>
  C1. The round trip fails for a payload as long as the maximum allows. With \<open>n = 2\<close>
  and \<open>MaxPacketSize = 4\<close>, a payload of four bytes is packed, and then \<open>Write\<close>
  refuses the buffer of six bytes with \<open>PacketTooLargeError\<close>: nothing reaches the wire.
  \<open>Read\<close>, under the same maximum, accepts that very packet.
\<close>

theorem roundtrip_refused_at_maximum:
  "Packet ((projr (PacketN 2 BigEndian))\<lparr>MaxPacketSize := 4\<rparr>) \<lparr>Data = nil_slice\<rparr>
     (appendMessage 6 [1, 2, 3, 4]) =
     Inr (\<lparr>Data = \<lparr>elems = [0, 0, 1, 2, 3, 4], spare = []\<rparr>\<rparr>, None) \<and>
   Write ((projr (PacketN 2 BigEndian))\<lparr>MaxPacketSize := 4\<rparr>) \<lparr>sink = [], werr = None\<rparr>
     \<lparr>Data = \<lparr>elems = [0, 0, 1, 2, 3, 4], spare = []\<rparr>\<rparr> =
     Inr (\<lparr>sink = [], werr = None\<rparr>,
          \<lparr>Data = \<lparr>elems = [0, 0, 1, 2, 3, 4], spare = []\<rparr>\<rparr>, Some PacketTooLargeError) \<and>
   Read ((projr (PacketN 2 BigEndian))\<lparr>MaxPacketSize := 4\<rparr>)
     \<lparr>events = [Chunk [0, 4, 1, 2, 3, 4]], calls = 0\<rparr> \<lparr>Data = nil_slice\<rparr> =
     Inr ((projr (PacketN 2 BigEndian))\<lparr>sp_head := [0, 4], MaxPacketSize := 4\<rparr>,
          \<lparr>events = [], calls = 2\<rparr>,
          \<lparr>Data = \<lparr>elems = [1, 2, 3, 4], spare = []\<rparr>\<rparr>, None)"
  by (simp add: proto_defs replicate_num)

section \<open>The empty packet\<close>

lemma header_zero: "n \<in> {1, 2, 4, 8} \<Longrightarrow> header n bo 0 = replicate (nat n) 0"
  by (cases bo) (auto simp: header_def head16_def head32_def head64_def numeral_eq_Suc)

text \<open>
  When \<open>Packet\<close> returns and the maximum, if set, is at least \<open>n\<close>, an empty message
  puts exactly \<open>n\<close> zero bytes on the wire. A header that decodes to \<open>0\<close> makes
  \<open>Read\<close> return an empty buffer, with the reader left where the read of the header
  left it.
\<close>

lemma empty_packet_on_wire:
  assumes "PacketN n bo = Inr p0"
    and "(slice_cap (Data b) < hint \<and> n \<le> hint) \<or> (hint \<le> slice_cap (Data b) \<and> n \<le> slice_cap (Data b))"
    and "M \<le> 0 \<or> n \<le> M" and "werr w = None" and "sink w = []"
  shows "\<exists>b1 w' b2.
      Packet (p0\<lparr>sp_head := h, MaxPacketSize := M\<rparr>) b (appendMessage hint []) = Inr (b1, None) \<and>
      Write (p0\<lparr>sp_head := h, MaxPacketSize := M\<rparr>) w b1 = Inr (w', b2, None) \<and>
      sink w' = replicate (nat n) 0"
proof -
  note Pn = PacketN_Inr [OF assms(1)]
  let ?p = "p0\<lparr>sp_head := h, MaxPacketSize := M\<rparr>"
  from Pn(1) have n0: "0 \<le> n" by auto
  from Packet_appendMessage [OF assms(1,2), where h = h and M = M and P = "[]"] obtain b1
    where pk: "Packet ?p b (appendMessage hint []) = Inr (b1, None)"
      and l1: "length (elems (Data b1)) = nat n" by auto
  from l1 n0 have sl: "slice_len (Data b1) = n" by (simp add: slice_len_def)
  have wr: "Write ?p w b1 =
     Inr (w\<lparr>sink := sink w @ header n bo (slice_len (Data b1) - n) @ drop (nat n) (elems (Data b1))\<rparr>,
          b1\<lparr>Data := (Data b1)\<lparr>elems := header n bo (slice_len (Data b1) - n) @ drop (nat n) (elems (Data b1))\<rparr>\<rparr>,
          None)"
    using assms(3) sl by (intro Write_ok [OF assms(1,4)]) simp_all
  moreover have "sink w @ header n bo (slice_len (Data b1) - n) @ drop (nat n) (elems (Data b1)) =
      replicate (nat n) 0"
    using sl l1 assms(5) by (simp add: header_zero [OF Pn(1)])
  ultimately show ?thesis using pk by simp
qed

lemma empty_packet_read:
  assumes "PacketN n bo = Inr p0" and "length h = nat n"
    and "nat n \<le> length (avail (events rd))"
    and "decodeHead p0 (take (nat n) (avail (events rd))) = Inr 0"
  shows "\<exists>r1 d. ReadFull rd h = (take (nat n) (avail (events rd)), nat n, None, r1) \<and>
      Read (p0\<lparr>sp_head := h, MaxPacketSize := M\<rparr>) rd b =
        Inr (p0\<lparr>sp_head := take (nat n) (avail (events rd)), MaxPacketSize := M\<rparr>, r1, b\<lparr>Data := d\<rparr>, None) \<and>
      elems d = [] \<and> avail (events r1) = drop (nat n) (avail (events rd))"
proof -
  from ReadFull_enough [of h rd] assms(2,3) obtain r1
    where rf1: "ReadFull rd h = (take (nat n) (avail (events rd)), nat n, None, r1)"
      and r1: "avail (events r1) = drop (nat n) (avail (events rd))" by auto
  have "Read (p0\<lparr>sp_head := h, MaxPacketSize := M\<rparr>) rd b =
      Inr (p0\<lparr>sp_head := take (nat n) (avail (events rd)), MaxPacketSize := M\<rparr>, r1,
           b\<lparr>Data := \<lparr>elems = [], spare = elems (Data b) @ spare (Data b)\<rparr>\<rparr>, None)"
    by (simp add: Read_def rf1 assms(4) Let_def reslice_def slice_cap_def)
  with rf1 r1 show ?thesis by auto
qed

text \<open>
  C7. An empty message is not always framed. With an empty buffer of capacity zero and
  a message that appends nothing and recommends size \<open>0\<close>, \<open>Packet\<close> panics, for
  \<open>n = 1\<close> already. With \<open>n = 2\<close> and \<open>MaxPacketSize = 1\<close>, \<open>Packet\<close> returns the two
  header bytes and \<open>Write\<close> refuses them with \<open>PacketTooLargeError\<close>. In both cases
  nothing reaches the wire.
\<close>

theorem empty_message_not_framed:
  "Packet (projr (PacketN 1 LittleEndian)) \<lparr>Data = nil_slice\<rparr> (appendMessage 0 []) =
     Inl SliceBoundsOutOfRange \<and>
   Packet ((projr (PacketN 2 BigEndian))\<lparr>MaxPacketSize := 1\<rparr>) \<lparr>Data = nil_slice\<rparr>
     (appendMessage 2 []) =
     Inr (\<lparr>Data = \<lparr>elems = [0, 0], spare = []\<rparr>\<rparr>, None) \<and>
   Write ((projr (PacketN 2 BigEndian))\<lparr>MaxPacketSize := 1\<rparr>) \<lparr>sink = [], werr = None\<rparr>
     \<lparr>Data = \<lparr>elems = [0, 0], spare = []\<rparr>\<rparr> =
     Inr (\<lparr>sink = [], werr = None\<rparr>, \<lparr>Data = \<lparr>elems = [0, 0], spare = []\<rparr>\<rparr>,
          Some PacketTooLargeError)"
  by (simp add: proto_defs replicate_num)

end
